theory Spec2Isabelle
  imports Complex_Main "HOL-Library.Multiset" "HOL-Library.List_Lexorder"
begin

unbundle bit_operations_syntax

section \<open>Key-custody access structures: the model\<close>

text \<open>
  The Python sources \<open>helpers/wallet_enumerations.py\<close> and \<open>helpers/computations.py\<close>
  are embedded function by function. Python integers are \<open>int\<close>; a wallet is a list of
  bit masks; a raised exception is the \<open>Inl\<close> branch of a sum. Python floats are
  idealised as exact \<open>real\<close> numbers: rounding is not modelled.
\<close>

datatype error =
  InvalidNumberOfKeys | KeyError | AssertionError | IndexError | ValueError

type_synonym wallet = "int list"

subsection \<open>Coverage\<close>

fun isCovered :: "int \<Rightarrow> wallet \<Rightarrow> bool" where
  "isCovered keyCombination [] = False"
| "isCovered keyCombination (walletCombination # wallet) =
     (if walletCombination AND keyCombination = walletCombination then True
      else isCovered keyCombination wallet)"

subsection \<open>Enumeration of static wallets\<close>

text \<open>
  The loop over \<open>range(prevCombi + 1, 2 ** keyCount)\<close> appends, for every combination that
  the base wallet does not cover, the extended wallet and then everything the recursive call
  returns. \<open>keyCount\<close> is a count of keys, a natural number.
\<close>

function enumerateStaticSubWallets :: "wallet \<Rightarrow> int \<Rightarrow> nat \<Rightarrow> wallet list" where
  "enumerateStaticSubWallets baseWallet prevCombi keyCount =
     concat (map (\<lambda>currCombi.
        if \<not> isCovered currCombi baseWallet
        then [baseWallet @ [currCombi]]
             @ enumerateStaticSubWallets (baseWallet @ [currCombi]) currCombi keyCount
        else [])
      [prevCombi + 1 .. 2 ^ keyCount - 1])"
  by pat_completeness auto
termination
  by (relation "measure (\<lambda>(b, p, k). nat (2 ^ k - p))") auto

declare enumerateStaticSubWallets.simps [simp del]

subsection \<open>Relabelling of keys and canonical forms\<close>

text \<open>
  \<open>itertools.permutations\<close> belongs to the Python standard library. It yields the
  permutations of its argument in lexicographic order of positions: first every permutation
  that starts with the element at position 0, then those starting with position 1, and so on.
\<close>

function permutations :: "'a list \<Rightarrow> 'a list list" where
  "permutations xs =
     (if xs = [] then [[]]
      else concat (map (\<lambda>i. map ((#) (xs ! i)) (permutations (take i xs @ drop (Suc i) xs)))
                       [0..<length xs]))"
  by pat_completeness auto
termination
  by (relation "measure length") auto

declare permutations.simps [simp del]

text \<open>
  \<open>permuteBits\<close>: the loop runs over \<open>enumerate(permutation, start=1)\<close>. A shift by a
  negative count raises \<open>ValueError\<close> in Python; it is evaluated only when the bit
  \<open>i\<close> of \<open>number\<close> is set.
\<close>

fun permuteBits_loop :: "int \<Rightarrow> nat \<Rightarrow> int list \<Rightarrow> int \<Rightarrow> error + int" where
  "permuteBits_loop number i [] result = Inr result"
| "permuteBits_loop number i (target_pos # rest) result =
     (if number AND push_bit (i - 1) 1 \<noteq> 0
      then (if target_pos - 1 < 0 then Inl ValueError
            else permuteBits_loop number (i + 1) rest
                   (result OR push_bit (nat (target_pos - 1)) 1))
      else permuteBits_loop number (i + 1) rest result)"

definition permuteBits :: "int \<Rightarrow> int list \<Rightarrow> error + int" where
  "permuteBits number permutation = permuteBits_loop number 1 permutation 0"

text \<open>A comprehension whose body may raise: the first error ends it.\<close>

fun traverse :: "('a \<Rightarrow> error + 'b) \<Rightarrow> 'a list \<Rightarrow> error + 'b list" where
  "traverse f [] = Inr []"
| "traverse f (x # xs) =
     (case f x of
        Inl e \<Rightarrow> Inl e
      | Inr y \<Rightarrow> (case traverse f xs of Inl e \<Rightarrow> Inl e | Inr ys \<Rightarrow> Inr (y # ys)))"

text \<open>
  The loop of \<open>canonicalizeWallet\<close> over the permutations; \<open>best\<close> starts as \<open>None\<close>.
  Tuples compare lexicographically, as lists do here.
\<close>

fun canonicalizeWallet_loop ::
  "wallet \<Rightarrow> int list list \<Rightarrow> int list option \<Rightarrow> error + int list option" where
  "canonicalizeWallet_loop wallet [] best = Inr best"
| "canonicalizeWallet_loop wallet (perm # perms) best =
     (case traverse (\<lambda>c. permuteBits c perm) wallet of
        Inl e \<Rightarrow> Inl e
      | Inr permuted \<Rightarrow>
          (let transformed = sort permuted in
           if best = None \<or> transformed < the best
           then canonicalizeWallet_loop wallet perms (Some transformed)
           else canonicalizeWallet_loop wallet perms best))"

definition canonicalizeWallet :: "wallet \<Rightarrow> nat \<Rightarrow> error + int list option" where
  "canonicalizeWallet wallet keyCount =
     (let indices = [1 .. int keyCount] in
      canonicalizeWallet_loop wallet (permutations indices) None)"

text \<open>\<open>deduplicateWalletsByArchitecture\<close>: the state of the loop is \<open>(seen, unique)\<close>.\<close>

fun deduplicate_loop ::
  "wallet list \<Rightarrow> nat \<Rightarrow> int list option set \<Rightarrow> wallet list \<Rightarrow> error + wallet list" where
  "deduplicate_loop [] keyCount seen unique = Inr unique"
| "deduplicate_loop (wallet # wallets) keyCount seen unique =
     (case canonicalizeWallet wallet keyCount of
        Inl e \<Rightarrow> Inl e
      | Inr canon \<Rightarrow>
          if canon \<notin> seen
          then deduplicate_loop wallets keyCount (insert canon seen) (unique @ [wallet])
          else deduplicate_loop wallets keyCount seen unique)"

definition deduplicateWalletsByArchitecture :: "wallet list \<Rightarrow> nat \<Rightarrow> error + wallet list" where
  "deduplicateWalletsByArchitecture wallets keyCount = deduplicate_loop wallets keyCount {} []"

definition enumerateStaticWallets :: "nat \<Rightarrow> bool \<Rightarrow> error + wallet list" where
  "enumerateStaticWallets keyCount deduplicate_by_architecture =
     (let wallets = enumerateStaticSubWallets [] 0 keyCount in
      if deduplicate_by_architecture
      then deduplicateWalletsByArchitecture wallets keyCount
      else Inr wallets)"

subsection \<open>Key states and the state space\<close>

text \<open>
  Modelled from the spec: \<open>consts.py\<close> (the constants \<open>SAFE\<close>, \<open>LOST\<close>, \<open>LEAKED\<close>,
  \<open>STOLEN\<close> and the collection \<open>KeyStates\<close>) is not among the sources. The spec names
  exactly these four states; the order of \<open>KeyStates\<close> and of \<open>sorted(KeyStates)\<close> is
  taken to be the order in which the spec lists them. No result below depends on that order.
\<close>

datatype KeyState = SAFE | LOST | LEAKED | STOLEN

definition KeyStates :: "KeyState list" where
  "KeyStates = [SAFE, LOST, LEAKED, STOLEN]"

definition sorted_KeyStates :: "KeyState list" where
  "sorted_KeyStates = [SAFE, LOST, LEAKED, STOLEN]"

text \<open>A dictionary from key states to probabilities; \<open>d[k]\<close> raises \<open>KeyError\<close>.\<close>

type_synonym probs = "KeyState \<rightharpoonup> real"

definition lookup :: "probs \<Rightarrow> KeyState \<Rightarrow> error + real" where
  "lookup d k = (case d k of None \<Rightarrow> Inl KeyError | Some v \<Rightarrow> Inr v)"

text \<open>\<open>xs[i]\<close> for an index taken from a \<open>range\<close>: \<open>IndexError\<close> beyond the end.\<close>

definition item :: "'a list \<Rightarrow> nat \<Rightarrow> error + 'a" where
  "item xs i = (if i < length xs then Inr (xs ! i) else Inl IndexError)"

text \<open>The inner loop of \<open>enumerateStates\<close>, over \<open>range(len(stateSuffix))\<close>.\<close>

fun enumerateStates_inner ::
  "probs \<Rightarrow> KeyState \<Rightarrow> KeyState list list \<Rightarrow> real list \<Rightarrow> nat list \<Rightarrow>
   KeyState list list \<times> real list \<Rightarrow> error + KeyState list list \<times> real list" where
  "enumerateStates_inner ksp keyState stateSuffix suffixesProbabilities [] acc = Inr acc"
| "enumerateStates_inner ksp keyState stateSuffix suffixesProbabilities (iSuffix # rest)
     (states, probabilities) =
     (case item stateSuffix iSuffix of
        Inl e \<Rightarrow> Inl e
      | Inr suffix \<Rightarrow>
          (case item suffixesProbabilities iSuffix of
             Inl e \<Rightarrow> Inl e
           | Inr pSuffix \<Rightarrow>
               (if ksp \<noteq> Map.empty
                then (case lookup ksp keyState of
                        Inl e \<Rightarrow> Inl e
                      | Inr p \<Rightarrow>
                          enumerateStates_inner ksp keyState stateSuffix suffixesProbabilities rest
                            (states @ [[keyState] @ suffix], probabilities @ [p * pSuffix]))
                else enumerateStates_inner ksp keyState stateSuffix suffixesProbabilities rest
                       (states @ [[keyState] @ suffix], probabilities))))"

text \<open>The outer loop, over \<open>KeyStates\<close>.\<close>

fun enumerateStates_outer ::
  "probs \<Rightarrow> KeyState list list \<Rightarrow> real list \<Rightarrow> KeyState list \<Rightarrow>
   KeyState list list \<times> real list \<Rightarrow> error + KeyState list list \<times> real list" where
  "enumerateStates_outer ksp stateSuffix suffixesProbabilities [] acc = Inr acc"
| "enumerateStates_outer ksp stateSuffix suffixesProbabilities (keyState # rest) acc =
     (case enumerateStates_inner ksp keyState stateSuffix suffixesProbabilities
             [0..<length stateSuffix] acc of
        Inl e \<Rightarrow> Inl e
      | Inr acc' \<Rightarrow> enumerateStates_outer ksp stateSuffix suffixesProbabilities rest acc')"

function enumerateStates ::
  "int \<Rightarrow> probs \<Rightarrow> error + KeyState list list \<times> real list" where
  "enumerateStates keyCount keyStateProbabilities =
     (if keyCount \<le> 0 then Inl InvalidNumberOfKeys
      else if keyCount = 1 then
        (case traverse (lookup keyStateProbabilities) sorted_KeyStates of
           Inl e \<Rightarrow> Inl e
         | Inr probabilities \<Rightarrow> Inr (map (\<lambda>state. [state]) sorted_KeyStates, probabilities))
      else if dom keyStateProbabilities \<noteq> set KeyStates then Inl AssertionError
      else
        (case enumerateStates (keyCount - 1) keyStateProbabilities of
           Inl e \<Rightarrow> Inl e
         | Inr (stateSuffix, suffixesProbabilities) \<Rightarrow>
             enumerateStates_outer keyStateProbabilities stateSuffix suffixesProbabilities
               KeyStates ([], [])))"
  by pat_completeness auto
termination
  by (relation "measure (\<lambda>(k, p). nat k)") auto

declare enumerateStates.simps [simp del]

text \<open>The owner's and the adversary's key masks of a state; \<open>bools\<close> is the table.\<close>

fun bools :: "KeyState \<Rightarrow> int \<times> int" where
  "bools SAFE = (1, 0)"
| "bools LOST = (0, 0)"
| "bools LEAKED = (1, 1)"
| "bools STOLEN = (0, 1)"

fun ownerAdvKeys_inner :: "KeyState list \<Rightarrow> int \<Rightarrow> int \<Rightarrow> nat \<Rightarrow> int \<times> int" where
  "ownerAdvKeys_inner [] ownerState advState i = (ownerState, advState)"
| "ownerAdvKeys_inner (keyState # state) ownerState advState i =
     ownerAdvKeys_inner state
       (ownerState + fst (bools keyState) * 2 ^ i)
       (advState + snd (bools keyState) * 2 ^ i)
       (i + 1)"

fun ownerAdvKeys_loop ::
  "KeyState list list \<Rightarrow> int list \<Rightarrow> int list \<Rightarrow> int list \<times> int list" where
  "ownerAdvKeys_loop [] ownerStates advStates = (ownerStates, advStates)"
| "ownerAdvKeys_loop (state # states) ownerStates advStates =
     (case ownerAdvKeys_inner state 0 0 0 of
        (ownerState, advState) \<Rightarrow>
          ownerAdvKeys_loop states (ownerStates @ [ownerState]) (advStates @ [advState]))"

definition ownerAdvKeysFromStates :: "KeyState list list \<Rightarrow> int list \<times> int list" where
  "ownerAdvKeysFromStates states = ownerAdvKeys_loop states [] []"

subsection \<open>Success probability and the search for the best wallets\<close>

fun computeSuccessProbability_loop ::
  "wallet \<Rightarrow> int list \<Rightarrow> int list \<Rightarrow> real list \<Rightarrow> nat list \<Rightarrow> real \<Rightarrow> error + real" where
  "computeSuccessProbability_loop wallet ownerStates advStates probabilities [] total_p = Inr total_p"
| "computeSuccessProbability_loop wallet ownerStates advStates probabilities (i # rest) total_p =
     (case item ownerStates i of
        Inl e \<Rightarrow> Inl e
      | Inr ownerState \<Rightarrow>
          (case item advStates i of
             Inl e \<Rightarrow> Inl e
           | Inr advState \<Rightarrow>
               (let owner_ok = isCovered ownerState wallet;
                    adv_ok = isCovered advState wallet
                in if owner_ok \<and> \<not> adv_ok
                   then (case item probabilities i of
                           Inl e \<Rightarrow> Inl e
                         | Inr p \<Rightarrow>
                             computeSuccessProbability_loop wallet ownerStates advStates
                               probabilities rest (total_p + p))
                   else computeSuccessProbability_loop wallet ownerStates advStates
                          probabilities rest total_p)))"

definition computeSuccessProbability ::
  "wallet \<Rightarrow> int list \<Rightarrow> int list \<Rightarrow> real list \<Rightarrow> error + real" where
  "computeSuccessProbability wallet ownerStates advStates probabilities =
     computeSuccessProbability_loop wallet ownerStates advStates probabilities
       [0..<length probabilities] 0"

fun findOptimalWallet_loop ::
  "wallet list \<Rightarrow> int list \<Rightarrow> int list \<Rightarrow> real list \<Rightarrow> wallet list \<Rightarrow> real \<Rightarrow>
   error + wallet list \<times> real" where
  "findOptimalWallet_loop [] ownerStates advStates state_probabilities best_wallets best_prob =
     Inr (best_wallets, best_prob)"
| "findOptimalWallet_loop (wallet # wallets) ownerStates advStates state_probabilities
     best_wallets best_prob =
     (case computeSuccessProbability wallet ownerStates advStates state_probabilities of
        Inl e \<Rightarrow> Inl e
      | Inr p \<Rightarrow>
          if \<bar>p - best_prob\<bar> < 1 / 10 ^ 12
          then findOptimalWallet_loop wallets ownerStates advStates state_probabilities
                 (best_wallets @ [wallet]) best_prob
          else if p > best_prob
          then findOptimalWallet_loop wallets ownerStates advStates state_probabilities
                 [wallet] p
          else findOptimalWallet_loop wallets ownerStates advStates state_probabilities
                 best_wallets best_prob)"

definition findOptimalWallet ::
  "wallet list \<Rightarrow> int \<Rightarrow> probs \<Rightarrow> error + wallet list \<times> real" where
  "findOptimalWallet wallets keyCount keyStateProbabilities =
     (case enumerateStates keyCount keyStateProbabilities of
        Inl e \<Rightarrow> Inl e
      | Inr (states, state_probabilities) \<Rightarrow>
          (case ownerAdvKeysFromStates states of
             (ownerStates, advStates) \<Rightarrow>
               findOptimalWallet_loop wallets ownerStates advStates state_probabilities
                 [] (- 1)))"

section \<open>Auxiliary definitions for the proofs\<close>

text \<open>
  The list of states and the probability of one state, as closed forms of what
  \<open>enumerateStates\<close> builds for a complete dictionary.
\<close>

fun statesOf :: "nat \<Rightarrow> KeyState list list" where
  "statesOf 0 = []"
| "statesOf (Suc 0) = map (\<lambda>state. [state]) sorted_KeyStates"
| "statesOf (Suc (Suc n)) =
     concat (map (\<lambda>keyState. map ((#) keyState) (statesOf (Suc n))) KeyStates)"

fun stateProb :: "probs \<Rightarrow> KeyState list \<Rightarrow> real" where
  "stateProb p [] = 1"
| "stateProb p [s] = the (p s)"
| "stateProb p (s # suffix) = the (p s) * stateProb p suffix"

text \<open>The sum of the four probabilities of a dictionary, as the callers validate it.\<close>

definition profileSum :: "probs \<Rightarrow> real" where
  "profileSum p = the (p SAFE) + the (p LOST) + the (p LEAKED) + the (p STOLEN)"

text \<open>A profile whose sum is \<open>1 + 9e-10\<close>, inside the tolerance \<open>1e-9\<close>.\<close>

definition skewedProfile :: probs where
  "skewedProfile =
     [SAFE \<mapsto> 1 / 4 + 9 / 10 ^ 10, LOST \<mapsto> 1 / 4, LEAKED \<mapsto> 1 / 4, STOLEN \<mapsto> 1 / 4]"

text \<open>
  Closed forms for the proofs about \<open>computeSuccessProbability\<close> and
  \<open>findOptimalWallet\<close>: the sum the loop accumulates, the masks of one state, the
  contribution of one state to a wallet's score, and the scan as a pure function of the scores.
\<close>

definition successSum ::
  "wallet \<Rightarrow> int list \<Rightarrow> int list \<Rightarrow> real list \<Rightarrow> nat list \<Rightarrow> real" where
  "successSum w os as ps is =
     sum_list (map (\<lambda>i. if isCovered (os ! i) w \<and> \<not> isCovered (as ! i) w then ps ! i else 0) is)"

definition ownerMask :: "KeyState list \<Rightarrow> int" where
  "ownerMask state = fst (ownerAdvKeys_inner state 0 0 0)"

definition advMask :: "KeyState list \<Rightarrow> int" where
  "advMask state = snd (ownerAdvKeys_inner state 0 0 0)"

definition stateScore :: "probs \<Rightarrow> wallet \<Rightarrow> KeyState list \<Rightarrow> real" where
  "stateScore p w state =
     (if isCovered (ownerMask state) w \<and> \<not> isCovered (advMask state) w then stateProb p state
      else 0)"

definition walletScore :: "nat \<Rightarrow> probs \<Rightarrow> wallet \<Rightarrow> real" where
  "walletScore n p w = sum_list (map (stateScore p w) (statesOf n))"



text \<open>
  The extensions that \<open>enumerateStaticSubWallets\<close> appends to a base wallet, and the
  antichain property of a set of masks and of a wallet: no combination is a bitwise superset
  of another one.
\<close>

fun validExt :: "wallet \<Rightarrow> int \<Rightarrow> nat \<Rightarrow> int list \<Rightarrow> bool" where
  "validExt base prev k [] = True"
| "validExt base prev k (c # cs) =
     (prev < c \<and> c \<le> 2 ^ k - 1 \<and> \<not> isCovered c base \<and> validExt (base @ [c]) c k cs)"

definition antichain :: "int set \<Rightarrow> bool" where
  "antichain A = (\<forall>a \<in> A. \<forall>b \<in> A. a \<noteq> b \<longrightarrow> b AND a \<noteq> b)"

definition antichainWallet :: "wallet \<Rightarrow> bool" where
  "antichainWallet w = (\<forall>i < length w. \<forall>j < length w. i \<noteq> j \<longrightarrow> w ! j AND w ! i \<noteq> w ! j)"

text \<open>
  For the proofs about canonical forms: the value \<open>permuteBits\<close> returns, the sorted
  image of a wallet under one relabelling, one step of the running minimum, permutations of
  the key indices \<open>1..keyCount\<close> as lists, and their composition.
\<close>

definition permuted :: "int list \<Rightarrow> int \<Rightarrow> int" where
  "permuted perm c = projr (permuteBits c perm)"

definition relabelled :: "wallet \<Rightarrow> int list \<Rightarrow> int list" where
  "relabelled w perm = sort (map (permuted perm) w)"

fun minOpt :: "int list option \<Rightarrow> int list \<Rightarrow> int list option" where
  "minOpt None t = Some t"
| "minOpt (Some b) t = Some (if t < b then t else b)"

definition keyPerm :: "nat \<Rightarrow> int list \<Rightarrow> bool" where
  "keyPerm k p = (mset p = mset [1 .. int k])"

definition compose :: "'a list \<Rightarrow> int list \<Rightarrow> 'a list" where
  "compose p s = map (\<lambda>t. p ! nat (t - 1)) s"

text \<open>The mask of a state for one column of the table \<open>bools\<close>, least significant bit first.\<close>

fun maskOf :: "(KeyState \<Rightarrow> int) \<Rightarrow> KeyState list \<Rightarrow> int" where
  "maskOf b [] = 0"
| "maskOf b (x # xs) = b x + 2 * maskOf b xs"

section \<open>Coverage\<close>

lemma isCovered_iff: "isCovered m w \<longleftrightarrow> (\<exists>c \<in> set w. c AND m = c)"
  by (induction w) auto

text \<open>
  Claim C4. Coverage is monotonic in the mask of available keys: when \<open>m\<close> is a bitwise
  subset of \<open>m'\<close> and the wallet is covered by \<open>m\<close>, it is covered by \<open>m'\<close>.
\<close>

theorem isCovered_monotonic:
  assumes "m AND m' = m" "isCovered m w"
  shows "isCovered m' w"
proof -
  from assms(2) obtain c where c: "c \<in> set w" "c AND m = c"
    by (auto simp: isCovered_iff)
  have "c AND m' = (c AND m) AND m'" using c by simp
  also have "\<dots> = c AND (m AND m')" by (simp add: and.assoc)
  also have "\<dots> = c" using assms(1) c by simp
  finally show ?thesis using c by (auto simp: isCovered_iff)
qed

theorem isCovered_monotonic_witness:
  "(1::int) AND 3 = 1 \<and> isCovered 1 [1] \<and> isCovered 3 [1]"
  using isCovered_monotonic [of 1 3 "[1]"] by simp

section \<open>The state space\<close>

lemma inner_ok:
  assumes "p s \<noteq> None" "\<forall>i \<in> set is. i < length suf \<and> i < length sp"
  shows "enumerateStates_inner p s suf sp is (st, pr) =
         Inr (st @ map (\<lambda>i. s # suf ! i) is, pr @ map (\<lambda>i. the (p s) * sp ! i) is)"
  using assms
proof (induction "is" arbitrary: st pr)
  case Nil
  then show ?case by simp
next
  case (Cons i "is")
  have ne: "p \<noteq> Map.empty" using Cons.prems(1) by auto
  show ?case using Cons ne by (auto simp: item_def lookup_def)
qed

lemma inner_full:
  assumes "p s \<noteq> None" "length sp = length suf"
  shows "enumerateStates_inner p s suf sp [0..<length suf] (st, pr) =
         Inr (st @ map ((#) s) suf, pr @ map (\<lambda>q. the (p s) * q) sp)"
proof -
  have a: "map (\<lambda>i. s # suf ! i) [0..<length suf] = map ((#) s) suf"
    by (rule nth_equalityI) auto
  have b: "map (\<lambda>i. the (p s) * sp ! i) [0..<length suf] = map (\<lambda>q. the (p s) * q) sp"
    using assms(2) by (intro nth_equalityI) auto
  show ?thesis using inner_ok [of p s "[0..<length suf]" suf sp st pr] assms a b by simp
qed

lemma outer_ok:
  assumes "\<forall>s \<in> set ks. p s \<noteq> None" "length sp = length suf"
  shows "enumerateStates_outer p suf sp ks (st, pr) =
         Inr (st @ concat (map (\<lambda>s. map ((#) s) suf) ks),
              pr @ concat (map (\<lambda>s. map (\<lambda>q. the (p s) * q) sp) ks))"
  using assms
  by (induction ks arbitrary: st pr) (auto simp: inner_full)

lemma traverse_lookup:
  assumes "\<forall>s \<in> set ks. p s \<noteq> None"
  shows "traverse (lookup p) ks = Inr (map (\<lambda>s. the (p s)) ks)"
  using assms by (induction ks) (auto simp: lookup_def)

lemma traverse_error:
  assumes "x \<in> set xs" "f x = Inl e0"
  shows "\<exists>e. traverse f xs = Inl e"
  using assms by (induction xs) (auto split: sum.splits)

lemma statesOf_nonempty: "0 < n \<Longrightarrow> s \<in> set (statesOf n) \<Longrightarrow> s \<noteq> []"
  by (induction n rule: statesOf.induct) (auto simp: sorted_KeyStates_def KeyStates_def)

lemma stateProb_Cons:
  "suffix \<noteq> [] \<Longrightarrow> stateProb p (s # suffix) = the (p s) * stateProb p suffix"
  by (cases suffix) auto

lemma set_KeyStates: "set KeyStates = UNIV"
  using KeyState.exhaust by (auto simp: KeyStates_def)

lemma dom_complete: "dom p = set KeyStates \<longleftrightarrow> (\<forall>s. p s \<noteq> None)"
  by (auto simp: set_KeyStates)

lemma map_stateProb_Cons:
  "map (\<lambda>x. stateProb p (s # x)) (statesOf (Suc n))
   = map (\<lambda>x. the (p s) * stateProb p x) (statesOf (Suc n))"
  by (rule map_cong) (auto simp: stateProb_Cons statesOf_nonempty [of "Suc n"])

lemma enumerateStates_complete_nat:
  assumes "\<forall>s. p s \<noteq> None"
  shows "enumerateStates (int (Suc n)) p =
         Inr (statesOf (Suc n), map (stateProb p) (statesOf (Suc n)))"
proof (induction n)
  case 0
  show ?case
    using assms by (simp add: enumerateStates.simps [of 1] traverse_lookup)
next
  case (Suc n)
  have d: "dom p = set KeyStates" using assms by (simp add: dom_complete)
  have k: "int (Suc (Suc n)) - 1 = int (Suc n)" by simp
  have ks: "\<forall>s \<in> set KeyStates. p s \<noteq> None" using assms by simp
  have "enumerateStates (int (Suc (Suc n))) p =
        enumerateStates_outer p (statesOf (Suc n)) (map (stateProb p) (statesOf (Suc n)))
          KeyStates ([], [])"
    by (subst enumerateStates.simps) (simp only: k Suc.IH, simp add: d)
  also have "\<dots> = Inr (concat (map (\<lambda>s. map ((#) s) (statesOf (Suc n))) KeyStates),
      concat (map (\<lambda>s. map (\<lambda>q. the (p s) * q) (map (stateProb p) (statesOf (Suc n))))
                KeyStates))"
    by (subst outer_ok [OF ks]) simp_all
  also have "\<dots> = Inr (statesOf (Suc (Suc n)), map (stateProb p) (statesOf (Suc (Suc n))))"
    by (simp add: map_concat comp_def map_stateProb_Cons)
  finally show ?case .
qed

lemma enumerateStates_complete:
  assumes "1 \<le> k" "\<forall>s. p s \<noteq> None"
  shows "enumerateStates k p = Inr (statesOf (nat k), map (stateProb p) (statesOf (nat k)))"
proof -
  have "k = int (Suc (nat (k - 1)))" using assms(1) by simp
  then obtain n where n: "k = int (Suc n)" ..
  have "nat k = Suc n" using n by simp
  then show ?thesis using enumerateStates_complete_nat [OF assms(2), of n] n by simp
qed

lemma enumerateStates_missing:
  assumes "p s = None"
  shows "\<exists>e. enumerateStates k p = Inl e"
proof -
  have s: "s \<in> set sorted_KeyStates"
    by (cases s; simp add: sorted_KeyStates_def)
  have l: "lookup p s = Inl KeyError" using assms by (simp add: lookup_def)
  have d: "dom p \<noteq> set KeyStates" using assms by (auto simp: dom_complete)
  consider "k \<le> 0" | "k = 1" | "1 < k" by linarith
  then show ?thesis
  proof cases
    case 1
    then show ?thesis by (simp add: enumerateStates.simps)
  next
    case 2
    obtain e where "traverse (lookup p) sorted_KeyStates = Inl e"
      using traverse_error [of s sorted_KeyStates "lookup p" KeyError] s l by blast
    then show ?thesis using 2 by (simp add: enumerateStates.simps [of 1])
  next
    case 3
    then show ?thesis using d by (subst enumerateStates.simps) simp
  qed
qed

text \<open>
  Claim C6. \<open>enumerateStates\<close> raises the invalid-number-of-keys error whenever
  \<open>keyCount \<le> 0\<close>; it raises some error whenever the dictionary misses one of the four
  key states; and for \<open>keyCount \<ge> 1\<close> with a complete dictionary it returns a result.
  An error is the whole outcome: no list is returned with it.
\<close>

theorem enumerateStates_failure_modes:
  "(keyCount \<le> 0 \<longrightarrow> enumerateStates keyCount p = Inl InvalidNumberOfKeys) \<and>
   (\<not> set KeyStates \<subseteq> dom p \<longrightarrow> (\<exists>e. enumerateStates keyCount p = Inl e)) \<and>
   (1 \<le> keyCount \<and> set KeyStates \<subseteq> dom p \<longrightarrow>
      (\<exists>r. enumerateStates keyCount p = Inr r))"
proof (intro conjI impI)
  assume "keyCount \<le> 0"
  then show "enumerateStates keyCount p = Inl InvalidNumberOfKeys"
    by (simp add: enumerateStates.simps)
next
  assume "\<not> set KeyStates \<subseteq> dom p"
  then have "\<exists>s. p s = None" by auto
  then show "\<exists>e. enumerateStates keyCount p = Inl e"
    using enumerateStates_missing by blast
next
  assume a: "1 \<le> keyCount \<and> set KeyStates \<subseteq> dom p"
  then have "\<forall>s. p s \<noteq> None" using set_KeyStates by auto
  then show "\<exists>r. enumerateStates keyCount p = Inr r"
    using a enumerateStates_complete by blast
qed

theorem enumerateStates_failure_modes_witness:
  "enumerateStates 0 [SAFE \<mapsto> 1] = Inl InvalidNumberOfKeys \<and>
   (\<exists>e. enumerateStates 2 [SAFE \<mapsto> 1 / 2, LOST \<mapsto> 1 / 2] = Inl e) \<and>
   (\<exists>r. enumerateStates 2 [SAFE \<mapsto> 1 / 2, LOST \<mapsto> 1 / 4, LEAKED \<mapsto> 1 / 8, STOLEN \<mapsto> 1 / 8]
          = Inr r)"
  using enumerateStates_failure_modes [of 0 "[SAFE \<mapsto> 1]"]
        enumerateStates_failure_modes [of 2 "[SAFE \<mapsto> 1 / 2, LOST \<mapsto> 1 / 2]"]
        enumerateStates_failure_modes
          [of 2 "[SAFE \<mapsto> 1 / 2, LOST \<mapsto> 1 / 4, LEAKED \<mapsto> 1 / 8, STOLEN \<mapsto> 1 / 8]"]
  by (simp add: KeyStates_def)

lemma sum_list_concat_real:
  fixes xss :: "real list list"
  shows "sum_list (concat xss) = sum_list (map sum_list xss)"
  by (induction xss) auto

lemma sum_statesOf:
  "sum_list (map (stateProb p) (statesOf (Suc n))) = profileSum p ^ Suc n"
proof (induction n)
  case 0
  show ?case by (simp add: sorted_KeyStates_def profileSum_def)
next
  case (Suc n)
  have "sum_list (map (stateProb p) (statesOf (Suc (Suc n))))
      = (\<Sum>s\<leftarrow>KeyStates. \<Sum>x\<leftarrow>statesOf (Suc n). stateProb p (s # x))"
    by (simp add: map_concat sum_list_concat_real comp_def)
  also have "\<dots> = (\<Sum>s\<leftarrow>KeyStates. the (p s) * (\<Sum>x\<leftarrow>statesOf (Suc n). stateProb p x))"
    by (simp only: map_stateProb_Cons sum_list_const_mult)
  also have "\<dots> = profileSum p * profileSum p ^ Suc n"
    by (simp only: Suc.IH) (simp add: KeyStates_def profileSum_def algebra_simps)
  finally show ?case by simp
qed

lemma power_near_one:
  fixes S :: real
  assumes "\<bar>S - 1\<bar> \<le> e" "e \<le> 1"
  shows "\<bar>S ^ n - 1\<bar> \<le> (1 + e) ^ n - 1"
proof -
  have e0: "0 \<le> e" using assms(1) by linarith
  have S: "0 \<le> S" "S \<le> 1 + e" "1 - e \<le> S" using assms by linarith+
  have up: "S ^ n \<le> (1 + e) ^ n" using S by (intro power_mono) auto
  have "1 + real n * (- e) \<le> (1 + (- e)) ^ n"
    using assms(2) by (intro Bernoulli_inequality) simp
  also have "\<dots> \<le> S ^ n" using S assms(2) by (intro power_mono) auto
  finally have lo: "1 - real n * e \<le> S ^ n" by simp
  have "1 + real n * e \<le> (1 + e) ^ n"
    using e0 by (intro Bernoulli_inequality) simp
  with lo up show ?thesis by linarith
qed

text \<open>
  Claim C5, as amended. In exact arithmetic the probabilities returned by
  \<open>enumerateStates\<close> for \<open>keyCount \<ge> 1\<close> and a complete dictionary sum to the
  \<open>keyCount\<close>-th power of the sum of the four given probabilities. When that sum is within
  \<open>1e-9\<close> of 1, the mass is within \<open>(1 + 1e-9) ^ keyCount - 1\<close> of 1: the tolerance
  \<open>1e-9\<close> itself is kept only for \<open>keyCount = 1\<close> or an exact profile.
\<close>

theorem enumerateStates_mass:
  assumes "1 \<le> keyCount" "set KeyStates \<subseteq> dom p"
  shows "\<exists>states probabilities.
           enumerateStates keyCount p = Inr (states, probabilities) \<and>
           sum_list probabilities = profileSum p ^ nat keyCount \<and>
           (\<bar>profileSum p - 1\<bar> \<le> 1 / 10 ^ 9 \<longrightarrow>
              \<bar>sum_list probabilities - 1\<bar> \<le> (1 + 1 / 10 ^ 9) ^ nat keyCount - 1)"
proof -
  have c: "\<forall>s. p s \<noteq> None" using assms(2) set_KeyStates by auto
  obtain n where n: "nat keyCount = Suc n" using assms(1) by (cases "nat keyCount") auto
  have s: "sum_list (map (stateProb p) (statesOf (nat keyCount))) = profileSum p ^ nat keyCount"
    unfolding n by (rule sum_statesOf)
  have b: "\<bar>profileSum p - 1\<bar> \<le> 1 / 10 ^ 9 \<longrightarrow>
      \<bar>profileSum p ^ nat keyCount - 1\<bar> \<le> (1 + 1 / 10 ^ 9) ^ nat keyCount - 1"
    using power_near_one [of "profileSum p" "1 / 10 ^ 9" "nat keyCount"] by simp
  show ?thesis
    using enumerateStates_complete [OF assms(1) c] s b by simp
qed

theorem enumerateStates_mass_witness:
  "(1::int) \<le> 2 \<and> set KeyStates \<subseteq> dom skewedProfile \<and>
   \<bar>profileSum skewedProfile - 1\<bar> \<le> 1 / 10 ^ 9 \<and>
   sum_list (snd (projr (enumerateStates 2 skewedProfile))) = (1 + 9 / 10 ^ 10) ^ 2 \<and>
   \<bar>sum_list (snd (projr (enumerateStates 2 skewedProfile))) - 1\<bar> \<le> (1 + 1 / 10 ^ 9) ^ 2 - 1"
  using enumerateStates_mass [of 2 skewedProfile]
  by (auto simp: skewedProfile_def KeyStates_def profileSum_def)

text \<open>
  Claim C5 as stated fails for two keys: the profile \<open>skewedProfile\<close> is complete and
  sums to 1 within \<open>1e-9\<close>, and the sixteen probabilities returned sum to
  \<open>(1 + 9e-10)\<^sup>2\<close>, more than \<open>1e-9\<close> away from 1.
\<close>

theorem enumerateStates_mass_counterexample:
  "set KeyStates \<subseteq> dom skewedProfile \<and>
   \<bar>profileSum skewedProfile - 1\<bar> \<le> 1 / 10 ^ 9 \<and>
   \<not> isl (enumerateStates 2 skewedProfile) \<and>
   \<not> \<bar>sum_list (snd (projr (enumerateStates 2 skewedProfile))) - 1\<bar> \<le> 1 / 10 ^ 9"
proof -
  have c: "\<forall>s. skewedProfile s \<noteq> None"
  proof
    fix s show "skewedProfile s \<noteq> None" by (cases s) (simp_all add: skewedProfile_def)
  qed
  have e: "enumerateStates 2 skewedProfile
        = Inr (statesOf (Suc (Suc 0)), map (stateProb skewedProfile) (statesOf (Suc (Suc 0))))"
    using enumerateStates_complete [of 2 skewedProfile] c by (simp add: numeral_2_eq_2)
  have v: "profileSum skewedProfile = 1 + 9 / 10 ^ 10"
    by (simp add: profileSum_def skewedProfile_def)
  have s: "sum_list (map (stateProb skewedProfile) (statesOf (Suc (Suc 0))))
         = (1 + 9 / 10 ^ 10) ^ 2"
    using sum_statesOf [of skewedProfile "Suc 0"] v by (simp add: numeral_2_eq_2)
  show ?thesis
    unfolding e
    apply (simp only: sum.sel snd_conv s v sum.disc)
    apply (simp add: skewedProfile_def KeyStates_def power2_eq_square)
    done
qed

section \<open>The search\<close>

text \<open>
  Claim C7. For \<open>keyCount \<ge> 1\<close> and a complete dictionary, \<open>findOptimalWallet\<close> on the
  empty list of wallets raises nothing and returns the pair \<open>([], -1.0)\<close>.
\<close>

theorem findOptimalWallet_empty:
  assumes "1 \<le> keyCount" "set KeyStates \<subseteq> dom p"
  shows "findOptimalWallet [] keyCount p = Inr ([], - 1)"
proof -
  have "\<forall>s. p s \<noteq> None" using assms(2) set_KeyStates by auto
  then show ?thesis
    using assms(1)
    by (simp add: findOptimalWallet_def enumerateStates_complete split: prod.splits)
qed

theorem findOptimalWallet_empty_witness:
  "findOptimalWallet [] 2 [SAFE \<mapsto> 7 / 10, LOST \<mapsto> 1 / 10, LEAKED \<mapsto> 1 / 10, STOLEN \<mapsto> 1 / 10]
   = Inr ([], - 1)"
  using findOptimalWallet_empty
    [of 2 "[SAFE \<mapsto> 7 / 10, LOST \<mapsto> 1 / 10, LEAKED \<mapsto> 1 / 10, STOLEN \<mapsto> 1 / 10]"]
  by (simp add: KeyStates_def)

section \<open>Enumeration of wallets\<close>

text \<open>
  Claim C8. With two keys and no deduplication the enumeration returns the four wallets
  \<open>[1]\<close>, \<open>[1,2]\<close>, \<open>[2]\<close>, \<open>[3]\<close> in this order, and deduplication by architecture
  of that list keeps the three wallets \<open>[1]\<close>, \<open>[1,2]\<close>, \<open>[3]\<close>.
\<close>

theorem enumerateStaticWallets_two_keys:
  "enumerateStaticWallets 2 False = Inr [[1], [1, 2], [2], [3]] \<and>
   deduplicateWalletsByArchitecture [[1], [1, 2], [2], [3]] 2 = Inr [[1], [1, 2], [3]]"
  by code_simp

section \<open>Success probability and the scan for the best wallets\<close>

lemma computeSuccessProbability_loop_ok:
  assumes "\<forall>i \<in> set is. i < length os \<and> i < length as \<and> i < length ps"
  shows "computeSuccessProbability_loop w os as ps is t = Inr (t + successSum w os as ps is)"
  using assms
  by (induction "is" arbitrary: t) (auto simp: successSum_def item_def Let_def)

lemma computeSuccessProbability_ok:
  assumes "length ps \<le> length os" "length ps \<le> length as"
  shows "computeSuccessProbability w os as ps = Inr (successSum w os as ps [0..<length ps])"
  using assms computeSuccessProbability_loop_ok [of "[0..<length ps]" os as ps w 0]
  by (simp add: computeSuccessProbability_def)



lemma length_ownerAdvKeys_loop:
  "ownerAdvKeys_loop states os as = (os', as') \<Longrightarrow>
   length os' = length os + length states \<and> length as' = length as + length states"
  by (induction states arbitrary: os as) (auto split: prod.splits)

lemma ownerAdvKeys_loop_map:
  "ownerAdvKeys_loop states os as = (os @ map ownerMask states, as @ map advMask states)"
  by (induction states arbitrary: os as) (auto simp: ownerMask_def advMask_def split: prod.splits)

lemma ownerAdvKeysFromStates_map:
  "ownerAdvKeysFromStates states = (map ownerMask states, map advMask states)"
  by (simp add: ownerAdvKeysFromStates_def ownerAdvKeys_loop_map)

lemma successSum_states:
  "successSum w (map ownerMask sts) (map advMask sts) (map (stateProb p) sts) [0..<length sts]
   = sum_list (map (stateScore p w) sts)"
proof -
  have "map (\<lambda>i. if isCovered (map ownerMask sts ! i) w \<and> \<not> isCovered (map advMask sts ! i) w
                  then map (stateProb p) sts ! i else 0) [0..<length sts]
      = map (stateScore p w) sts"
    by (rule nth_equalityI) (auto simp: stateScore_def)
  then show ?thesis by (simp add: successSum_def)
qed

lemma computeSuccessProbability_states:
  "computeSuccessProbability w (map ownerMask sts) (map advMask sts) (map (stateProb p) sts)
   = Inr (sum_list (map (stateScore p w) sts))"
  using computeSuccessProbability_ok [of "map (stateProb p) sts" "map ownerMask sts" "map advMask sts" w]
        successSum_states [of w sts p]
  by simp













section \<open>The enumeration yields exactly the antichains\<close>

lemma set_enumerateStaticSubWallets:
  "set (enumerateStaticSubWallets base prev k) =
   (\<Union>c \<in> {prev + 1 .. 2 ^ k - 1}.
      if \<not> isCovered c base
      then insert (base @ [c]) (set (enumerateStaticSubWallets (base @ [c]) c k)) else {})"
  by (subst enumerateStaticSubWallets.simps) auto

lemma mem_enumerateStaticSubWallets:
  "w \<in> set (enumerateStaticSubWallets base prev k) \<longleftrightarrow>
   (\<exists>ext. ext \<noteq> [] \<and> w = base @ ext \<and> validExt base prev k ext)"
proof (induction base prev k arbitrary: w rule: enumerateStaticSubWallets.induct)
  case (1 base prev k)
  have IH: "w \<in> set (enumerateStaticSubWallets (base @ [c]) c k) \<longleftrightarrow>
      (\<exists>ext. ext \<noteq> [] \<and> w = (base @ [c]) @ ext \<and> validExt (base @ [c]) c k ext)"
    if "prev < c" "c \<le> 2 ^ k - 1" "\<not> isCovered c base" for c w
    using 1 [of c w] that by simp
  show ?case
  proof
    assume "w \<in> set (enumerateStaticSubWallets base prev k)"
    then obtain c where cr: "c \<in> {prev + 1 .. 2 ^ k - 1}"
      and wc: "w \<in> (if \<not> isCovered c base
          then insert (base @ [c]) (set (enumerateStaticSubWallets (base @ [c]) c k)) else {})"
      unfolding set_enumerateStaticSubWallets [of base prev k] by blast
    have nc: "\<not> isCovered c base" using wc by (auto split: if_splits)
    have w: "w = base @ [c] \<or> w \<in> set (enumerateStaticSubWallets (base @ [c]) c k)"
      using wc nc by simp
    from cr nc
    have c: "prev < c" "c \<le> 2 ^ k - 1" "\<not> isCovered c base" by auto
    from w show "\<exists>ext. ext \<noteq> [] \<and> w = base @ ext \<and> validExt base prev k ext"
    proof
      assume "w = base @ [c]"
      then show ?thesis using c by (intro exI [of _ "[c]"]) simp
    next
      assume "w \<in> set (enumerateStaticSubWallets (base @ [c]) c k)"
      then obtain ext where "ext \<noteq> []" "w = (base @ [c]) @ ext" "validExt (base @ [c]) c k ext"
        using IH [OF c] by blast
      then show ?thesis using c by (intro exI [of _ "c # ext"]) simp
    qed
  next
    assume "\<exists>ext. ext \<noteq> [] \<and> w = base @ ext \<and> validExt base prev k ext"
    then obtain c cs where w: "w = base @ c # cs" and v: "validExt base prev k (c # cs)"
      by (metis list.exhaust)
    from v have c: "prev < c" "c \<le> 2 ^ k - 1" "\<not> isCovered c base"
      and vs: "validExt (base @ [c]) c k cs" by auto
    have "w = base @ [c] \<or> w \<in> set (enumerateStaticSubWallets (base @ [c]) c k)"
    proof (cases cs)
      case Nil
      then show ?thesis using w by simp
    next
      case (Cons d ds)
      then have "w \<in> set (enumerateStaticSubWallets (base @ [c]) c k)"
        using IH [OF c, of w] w vs by auto
      then show ?thesis ..
    qed
    then show "w \<in> set (enumerateStaticSubWallets base prev k)"
    proof -
      assume w': "w = base @ [c] \<or> w \<in> set (enumerateStaticSubWallets (base @ [c]) c k)"
      have "c \<in> {prev + 1 .. 2 ^ k - 1}" using c by auto
      then show ?thesis
        unfolding set_enumerateStaticSubWallets [of base prev k] using c(3) w' by (intro UN_I [of c]) auto
    qed
  qed
qed

lemma distinct_concat_map:
  assumes "distinct xs" "\<And>x. x \<in> set xs \<Longrightarrow> distinct (f x)"
    "\<And>x y. x \<in> set xs \<Longrightarrow> y \<in> set xs \<Longrightarrow> x \<noteq> y \<Longrightarrow> set (f x) \<inter> set (f y) = {}"
  shows "distinct (concat (map f xs))"
  using assms by (induction xs) auto

lemma distinct_enumerateStaticSubWallets:
  "distinct (enumerateStaticSubWallets base prev k)"
proof (induction base prev k rule: enumerateStaticSubWallets.induct)
  case (1 base prev k)
  let ?f = "\<lambda>c. if \<not> isCovered c base
        then [base @ [c]] @ enumerateStaticSubWallets (base @ [c]) c k else []"
  have d: "distinct (?f c)" if "c \<in> set [prev + 1 .. 2 ^ k - 1]" for c
  proof (cases "isCovered c base")
    case True
    then show ?thesis by simp
  next
    case False
    have "base @ [c] \<notin> set (enumerateStaticSubWallets (base @ [c]) c k)"
      by (simp add: mem_enumerateStaticSubWallets)
    then show ?thesis using 1 [OF that False] False by simp
  qed
  have hd: "\<exists>ext. w = base @ c # ext" if "w \<in> set (?f c)" for w c
    using that by (auto simp: mem_enumerateStaticSubWallets split: if_splits)
  have disj: "set (?f c) \<inter> set (?f c') = {}" if "c \<noteq> c'" for c c'
  proof (rule ccontr)
    assume "set (?f c) \<inter> set (?f c') \<noteq> {}"
    then obtain w where "w \<in> set (?f c)" "w \<in> set (?f c')" by blast
    then obtain e e' where "w = base @ c # e" "w = base @ c' # e'" using hd by blast
    then show False using that by simp
  qed
  show ?case
    by (subst enumerateStaticSubWallets.simps)
       (rule distinct_concat_map, simp, rule d, assumption, rule disj, assumption)
qed

lemma isCovered_snoc: "isCovered m (w @ [c]) \<longleftrightarrow> isCovered m w \<or> c AND m = c"
  by (auto simp: isCovered_iff)

lemma validExt_iff:
  "validExt base prev k ext \<longleftrightarrow>
   sorted_wrt (\<lambda>a b. a < b \<and> a AND b \<noteq> a) ext \<and>
   (\<forall>c \<in> set ext. prev < c \<and> c \<le> 2 ^ k - 1 \<and> \<not> isCovered c base)"
proof (induction ext arbitrary: base prev)
  case Nil
  show ?case by simp
next
  case (Cons c cs)
  show ?case
    unfolding validExt.simps Cons.IH sorted_wrt.simps isCovered_snoc by auto
qed

lemma subset_mask_le:
  fixes a b :: int
  assumes "0 \<le> b" "a AND b = a"
  shows "a \<le> b"
proof -
  have "a AND b \<le> b" using assms(1) by (rule AND_upper2)
  then show ?thesis using assms(2) by simp
qed

lemma pairwise_iff_antichain:
  assumes "\<forall>c \<in> set ext. 0 \<le> c"
  shows "sorted_wrt (\<lambda>a b. a < b \<and> a AND b \<noteq> a) ext \<longleftrightarrow>
         sorted_wrt (<) ext \<and> antichain (set ext)"
proof
  assume s: "sorted_wrt (\<lambda>a b. a < b \<and> a AND b \<noteq> a) ext"
  have lt: "sorted_wrt (<) ext" using s by (rule sorted_wrt_mono_rel [rotated]) auto
  have "b AND a \<noteq> b" if ab: "a \<in> set ext" "b \<in> set ext" "a \<noteq> b" for a b
  proof -
    obtain i j where ij: "i < length ext" "j < length ext" "ext ! i = a" "ext ! j = b"
      using ab by (auto simp: in_set_conv_nth)
    then have "i \<noteq> j" using ab(3) by auto
    then consider "i < j" | "j < i" by linarith
    then show ?thesis
    proof cases
      case 1
      then have "a < b" using lt ij by (auto simp: sorted_wrt_iff_nth_less)
      moreover have "0 \<le> a" using assms ab by auto
      ultimately show ?thesis using subset_mask_le [of a b] by auto
    next
      case 2
      then show ?thesis using s ij by (auto simp: sorted_wrt_iff_nth_less)
    qed
  qed
  then show "sorted_wrt (<) ext \<and> antichain (set ext)"
    using lt by (auto simp: antichain_def)
next
  assume a: "sorted_wrt (<) ext \<and> antichain (set ext)"
  then have "\<forall>i j. i < j \<longrightarrow> j < length ext \<longrightarrow> ext ! i < ext ! j"
    by (simp add: sorted_wrt_iff_nth_less)
  moreover have "ext ! i AND ext ! j \<noteq> ext ! i" if "i < j" "j < length ext" "ext ! i < ext ! j" for i j
    using a that by (auto simp: antichain_def)
  ultimately show "sorted_wrt (\<lambda>a b. a < b \<and> a AND b \<noteq> a) ext"
    by (auto simp: sorted_wrt_iff_nth_less)
qed

lemma mem_top:
  "w \<in> set (enumerateStaticSubWallets [] 0 k) \<longleftrightarrow>
   w \<noteq> [] \<and> sorted_wrt (<) w \<and> antichain (set w) \<and> (\<forall>c \<in> set w. 1 \<le> c \<and> c \<le> 2 ^ k - 1)"
proof -
  have "w \<in> set (enumerateStaticSubWallets [] 0 k) \<longleftrightarrow>
        w \<noteq> [] \<and> sorted_wrt (\<lambda>a b. a < b \<and> a AND b \<noteq> a) w \<and>
        (\<forall>c \<in> set w. 0 < c \<and> c \<le> 2 ^ k - 1)"
    by (auto simp: mem_enumerateStaticSubWallets validExt_iff)
  also have "\<dots> \<longleftrightarrow> w \<noteq> [] \<and> (sorted_wrt (<) w \<and> antichain (set w)) \<and>
        (\<forall>c \<in> set w. 0 < c \<and> c \<le> 2 ^ k - 1)"
    using pairwise_iff_antichain [of w] by fastforce
  finally show ?thesis by (simp add: int_one_le_iff_zero_less)
qed

lemma antichainWallet_iff: "antichainWallet w \<longleftrightarrow> distinct w \<and> antichain (set w)"
proof
  assume a: "antichainWallet w"
  have d: "distinct w"
    unfolding distinct_conv_nth
  proof (intro allI impI)
    fix i j assume "i < length w" "j < length w" "i \<noteq> j"
    then have "w ! j AND w ! i \<noteq> w ! j" using a by (auto simp: antichainWallet_def)
    then show "w ! i \<noteq> w ! j" by auto
  qed
  have "antichain (set w)"
    unfolding antichain_def
  proof (intro ballI impI)
    fix x y assume "x \<in> set w" "y \<in> set w" "x \<noteq> y"
    then obtain i j where "i < length w" "j < length w" "w ! i = x" "w ! j = y"
      by (auto simp: in_set_conv_nth)
    then show "y AND x \<noteq> y" using a \<open>x \<noteq> y\<close> unfolding antichainWallet_def by blast
  qed
  with d show "distinct w \<and> antichain (set w)" ..
next
  assume a: "distinct w \<and> antichain (set w)"
  show "antichainWallet w"
    unfolding antichainWallet_def
  proof (intro allI impI)
    fix i j assume ij: "i < length w" "j < length w" "i \<noteq> j"
    then have "w ! i \<noteq> w ! j" using a by (auto simp: distinct_conv_nth)
    then show "w ! j AND w ! i \<noteq> w ! j"
      using a ij unfolding antichain_def by (metis nth_mem)
  qed
qed

text \<open>
  Claim C1. Without deduplication \<open>enumerateStaticWallets\<close> returns a list of wallets in
  which every wallet is non-empty, has all its masks between 1 and \<open>2 ^ keyCount - 1\<close> and
  is an antichain; no two wallets of the list are equal as sets; and the sets of the wallets
  are exactly the non-empty antichains of masks in that range.
\<close>

theorem enumerateStaticWallets_antichains:
  "\<exists>wallets. enumerateStaticWallets keyCount False = Inr wallets \<and>
     (\<forall>w \<in> set wallets. w \<noteq> [] \<and> (\<forall>c \<in> set w. 1 \<le> c \<and> c \<le> 2 ^ keyCount - 1) \<and>
        antichainWallet w) \<and>
     distinct (map set wallets) \<and>
     set (map set wallets) =
       {A. A \<noteq> {} \<and> A \<subseteq> {1 .. 2 ^ keyCount - 1} \<and> antichain A}"
proof -
  let ?ws = "enumerateStaticSubWallets [] 0 keyCount"
  have e: "enumerateStaticWallets keyCount False = Inr ?ws"
    by (simp add: enumerateStaticWallets_def)
  have p1: "\<forall>w \<in> set ?ws. w \<noteq> [] \<and> (\<forall>c \<in> set w. 1 \<le> c \<and> c \<le> 2 ^ keyCount - 1) \<and>
        antichainWallet w"
    by (auto simp: mem_top antichainWallet_iff strict_sorted_iff)
  have inj: "inj_on set (set ?ws)"
  proof (rule inj_onI)
    fix x y assume "x \<in> set ?ws" "y \<in> set ?ws" "set x = set y"
    then show "x = y"
      using sorted_distinct_set_unique [of x y] strict_sorted_iff [of x] strict_sorted_iff [of y]
      by (auto simp: mem_top)
  qed
  have p2: "distinct (map set ?ws)"
    using distinct_enumerateStaticSubWallets inj by (simp add: distinct_map)
  have p3: "set (map set ?ws) = {A. A \<noteq> {} \<and> A \<subseteq> {1 .. 2 ^ keyCount - 1} \<and> antichain A}"
  proof (intro set_eqI iffI)
    fix A assume "A \<in> set (map set ?ws)"
    then obtain w where "w \<in> set ?ws" "A = set w" by auto
    then show "A \<in> {A. A \<noteq> {} \<and> A \<subseteq> {1 .. 2 ^ keyCount - 1} \<and> antichain A}"
      by (auto simp: mem_top)
  next
    fix A assume "A \<in> {A. A \<noteq> {} \<and> A \<subseteq> {1 .. 2 ^ keyCount - 1} \<and> antichain A}"
    then have A: "A \<noteq> {}" "A \<subseteq> {1 .. 2 ^ keyCount - 1}" "antichain A" by auto
    have fin: "finite A" using A(2) by (rule finite_subset) simp
    let ?w = "sorted_list_of_set A"
    have "set ?w = A" "sorted_wrt (<) ?w" "?w \<noteq> []"
      using fin A(1) by (auto simp: strict_sorted_iff)
    then have "?w \<in> set ?ws" using A by (auto simp: mem_top)
    then show "A \<in> set (map set ?ws)" using \<open>set ?w = A\<close> by force
  qed
  show ?thesis using e p1 p2 p3 by blast
qed

theorem enumerateStaticWallets_antichains_witness:
  "{1, 2} \<in> set (map set (projr (enumerateStaticWallets 2 False))) \<and>
   {1, 2} \<subseteq> {1 .. 2 ^ 2 - (1::int)} \<and> antichainWallet [1, 2] \<and> \<not> antichainWallet [1, 3]"
proof -
  have a: "antichain {1, 2}" by (simp add: antichain_def)
  have "{1, 2} \<in> {A. A \<noteq> {} \<and> A \<subseteq> {1 .. 2 ^ 2 - 1} \<and> antichain A}" using a by simp
  moreover have "antichainWallet [1, 2]" "\<not> antichainWallet [1, 3]"
    by (auto simp: antichainWallet_iff antichain_def)
  ultimately show ?thesis
    using enumerateStaticWallets_antichains [of 2] by auto
qed

section \<open>Canonical forms under relabelling of keys\<close>

lemma set_permutations_unfold:
  "xs \<noteq> [] \<Longrightarrow> set (permutations xs) =
     (\<Union>i \<in> {0..<length xs}. (#) (xs ! i) ` set (permutations (take i xs @ drop (Suc i) xs)))"
  by (subst permutations.simps) auto

lemma mset_remove_position:
  assumes "i < length xs"
  shows "mset (take i xs @ drop (Suc i) xs) = mset xs - {#xs ! i#}"
proof -
  have "mset xs = mset (take i xs @ xs ! i # drop (Suc i) xs)"
    using id_take_nth_drop [OF assms] by simp
  then show ?thesis by simp
qed

lemma mem_permutations: "ys \<in> set (permutations xs) \<longleftrightarrow> mset ys = mset xs"
proof (induction xs arbitrary: ys rule: permutations.induct)
  case (1 xs)
  show ?case
  proof (cases "xs = []")
    case True
    then show ?thesis by (subst permutations.simps) auto
  next
    case False
    have IH: "zs \<in> set (permutations (take i xs @ drop (Suc i) xs)) \<longleftrightarrow>
              mset zs = mset xs - {#xs ! i#}" if "i < length xs" for i zs
      using 1 [OF False, of i zs] that unfolding mset_remove_position [OF that, symmetric] by simp
    show ?thesis
    proof
      assume "ys \<in> set (permutations xs)"
      then obtain i zs where i: "i < length xs" and ys: "ys = xs ! i # zs"
        and zs: "zs \<in> set (permutations (take i xs @ drop (Suc i) xs))"
        unfolding set_permutations_unfold [OF False] by auto
      have "xs ! i \<in># mset xs" using i by simp
      then show "mset ys = mset xs" using IH [OF i, of zs] zs ys by simp
    next
      assume m: "mset ys = mset xs"
      then have "ys \<noteq> []" using False by auto
      then obtain y zs where ys: "ys = y # zs" by (cases ys) auto
      have "y \<in> set xs" using m ys by (metis list.set_intros(1) mset_eq_setD)
      then obtain i where i: "i < length xs" "xs ! i = y" by (auto simp: in_set_conv_nth)
      have "mset zs = mset xs - {#xs ! i#}" using m ys i by (metis add_mset_remove_trivial mset.simps(2))
      then have "zs \<in> set (permutations (take i xs @ drop (Suc i) xs))" using IH [OF i(1)] by simp
      then show "ys \<in> set (permutations xs)"
        unfolding set_permutations_unfold [OF False] using i ys by auto
    qed
  qed
qed

lemma traverse_total:
  assumes "\<forall>x \<in> set xs. f x = Inr (g x)"
  shows "traverse f xs = Inr (map g xs)"
  using assms by (induction xs) auto

lemma bit_set_step:
  fixes r :: int
  assumes "1 \<le> t"
  shows "bit (r OR push_bit (nat (t - 1)) 1) j \<longleftrightarrow> bit r j \<or> t = int j + 1"
proof -
  have "nat (t - 1) = j \<longleftrightarrow> t = int j + 1" using assms by auto
  then show ?thesis by (auto simp: bit_or_iff bit_exp_iff)
qed

lemma ex_less_Cons:
  "(\<exists>m < length (t # ts). P m) \<longleftrightarrow> P 0 \<or> (\<exists>m < length ts. P (Suc m))"
proof
  assume "\<exists>m < length (t # ts). P m"
  then obtain m where m: "m < length (t # ts)" "P m" by blast
  show "P 0 \<or> (\<exists>m < length ts. P (Suc m))"
  proof (cases m)
    case 0
    then show ?thesis using m by simp
  next
    case (Suc n)
    then show ?thesis using m by auto
  qed
next
  assume "P 0 \<or> (\<exists>m < length ts. P (Suc m))"
  then show "\<exists>m < length (t # ts). P m" by auto
qed

lemma permuteBits_loop_bits:
  assumes "\<forall>t \<in> set perm. 1 \<le> t" "1 \<le> i"
  shows "\<exists>r'. permuteBits_loop c i perm r = Inr r' \<and>
           (\<forall>j. bit r' j \<longleftrightarrow> bit r j \<or> (\<exists>m < length perm. perm ! m = int j + 1 \<and> bit c (i - 1 + m)))"
  using assms
proof (induction perm arbitrary: i r)
  case Nil
  then show ?case by simp
next
  case (Cons t ts)
  have t: "1 \<le> t" and ts: "\<forall>t \<in> set ts. 1 \<le> t" using Cons.prems by auto
  have i: "i + 1 - 1 = i" "Suc (i - 1) = i" using Cons.prems(2) by auto
  have test: "c AND push_bit (i - 1) 1 \<noteq> 0 \<longleftrightarrow> bit c (i - 1)"
    by (simp only: bit_iff_and_push_bit_not_eq_0)
  have ex: "(\<exists>m < length (t # ts). (t # ts) ! m = int j + 1 \<and> bit c (i - 1 + m)) \<longleftrightarrow>
        (t = int j + 1 \<and> bit c (i - 1)) \<or> (\<exists>m < length ts. ts ! m = int j + 1 \<and> bit c (i + m))" for j
    unfolding ex_less_Cons using i by simp
  show ?case
  proof (cases "bit c (i - 1)")
    case True
    obtain r' where r': "permuteBits_loop c (i + 1) ts (r OR push_bit (nat (t - 1)) 1) = Inr r'"
      "\<And>j. bit r' j \<longleftrightarrow> bit (r OR push_bit (nat (t - 1)) 1) j \<or>
           (\<exists>m < length ts. ts ! m = int j + 1 \<and> bit c (i + 1 - 1 + m))"
      using Cons.IH [OF ts, of "i + 1" "r OR push_bit (nat (t - 1)) 1"] by auto
    have step: "permuteBits_loop c i (t # ts) r = Inr r'"
      unfolding permuteBits_loop.simps test using True t r'(1) by simp
    have "bit r' j \<longleftrightarrow> bit r j \<or>
        (\<exists>m < length (t # ts). (t # ts) ! m = int j + 1 \<and> bit c (i - 1 + m))" for j
      unfolding ex r'(2) bit_set_step [OF t] i using True by blast
    then show ?thesis using step by blast
  next
    case False
    obtain r' where r': "permuteBits_loop c (i + 1) ts r = Inr r'"
      "\<And>j. bit r' j \<longleftrightarrow> bit r j \<or>
           (\<exists>m < length ts. ts ! m = int j + 1 \<and> bit c (i + 1 - 1 + m))"
      using Cons.IH [OF ts, of "i + 1" r] by auto
    have step: "permuteBits_loop c i (t # ts) r = Inr r'"
      unfolding permuteBits_loop.simps test using False r'(1) by simp
    have "bit r' j \<longleftrightarrow> bit r j \<or>
        (\<exists>m < length (t # ts). (t # ts) ! m = int j + 1 \<and> bit c (i - 1 + m))" for j
      unfolding ex r'(2) i using False by blast
    then show ?thesis using step by blast
  qed
qed

lemma permuteBits_ok:
  assumes "\<forall>t \<in> set perm. 1 \<le> t"
  shows "permuteBits c perm = Inr (permuted perm c)"
    and "bit (permuted perm c) j \<longleftrightarrow> (\<exists>m < length perm. perm ! m = int j + 1 \<and> bit c m)"
proof -
  obtain r' where r': "permuteBits_loop c 1 perm 0 = Inr r'"
    "\<forall>j. bit r' j \<longleftrightarrow> bit (0::int) j \<or> (\<exists>m < length perm. perm ! m = int j + 1 \<and> bit c (1 - 1 + m))"
    using permuteBits_loop_bits [OF assms, of 1 c 0] by auto
  show "permuteBits c perm = Inr (permuted perm c)"
    using r' by (simp add: permuted_def permuteBits_def)
  show "bit (permuted perm c) j \<longleftrightarrow> (\<exists>m < length perm. perm ! m = int j + 1 \<and> bit c m)"
    using r' by (simp add: permuted_def permuteBits_def)
qed

lemma keyPerm_props:
  assumes "keyPerm k p"
  shows "length p = k" "set p = {1 .. int k}" "distinct p" "\<forall>t \<in> set p. 1 \<le> t"
proof -
  have m: "mset p = mset [1 .. int k]" using assms by (simp add: keyPerm_def)
  show "length p = k" using mset_eq_length [OF m] by simp
  show s: "set p = {1 .. int k}" using mset_eq_setD [OF m] by simp
  show "distinct p" using mset_eq_imp_distinct_iff [OF m] by simp
  show "\<forall>t \<in> set p. 1 \<le> t" using s by simp
qed

lemma keyPerm_iff: "keyPerm k p \<longleftrightarrow> distinct p \<and> set p = {1 .. int k}"
proof
  assume "keyPerm k p"
  then show "distinct p \<and> set p = {1 .. int k}" using keyPerm_props by blast
next
  assume "distinct p \<and> set p = {1 .. int k}"
  then have "mset p = mset [1 .. int k]"
    by (intro set_eq_iff_mset_eq_distinct [THEN iffD1]) auto
  then show "keyPerm k p" by (simp add: keyPerm_def)
qed

lemma set_permutations_keys: "set (permutations [1 .. int k]) = {p. keyPerm k p}"
  by (auto simp: mem_permutations keyPerm_def)

lemma traverse_permuteBits:
  assumes "\<forall>t \<in> set perm. 1 \<le> t"
  shows "traverse (\<lambda>c. permuteBits c perm) w = Inr (map (permuted perm) w)"
  by (rule traverse_total) (simp add: permuteBits_ok(1) [OF assms])

lemma canonicalizeWallet_loop_fold:
  assumes "\<forall>perm \<in> set perms. \<forall>t \<in> set perm. 1 \<le> t"
  shows "canonicalizeWallet_loop w perms best =
         Inr (fold (\<lambda>perm b. minOpt b (relabelled w perm)) perms best)"
  using assms
proof (induction perms arbitrary: best)
  case Nil
  show ?case by simp
next
  case (Cons perm perms)
  have t: "traverse (\<lambda>c. permuteBits c perm) w = Inr (map (permuted perm) w)"
    using Cons.prems by (intro traverse_permuteBits) simp
  have r: "\<forall>perm \<in> set perms. \<forall>t \<in> set perm. 1 \<le> t" using Cons.prems by simp
  show ?case
  proof (cases best)
    case None
    then show ?thesis using t Cons.IH [OF r] by (simp add: relabelled_def)
  next
    case (Some b)
    then show ?thesis using t Cons.IH [OF r] by (simp add: relabelled_def Let_def)
  qed
qed

lemma Min_insert_min:
  fixes a b :: "'a :: linorder"
  assumes "finite S"
  shows "Min (insert (min a b) S) = Min (insert b (insert a S))"
proof (cases "S = {}")
  case True
  then show ?thesis by (simp add: min.commute)
next
  case False
  have "Min (insert (min a b) S) = min (min a b) (Min S)"
    using assms False by (rule Min_insert)
  moreover have "Min (insert b (insert a S)) = min b (Min (insert a S))"
    using assms by (intro Min_insert) auto
  moreover have "Min (insert a S) = min a (Min S)"
    using assms False by (rule Min_insert)
  ultimately show ?thesis by (metis min.assoc min.commute)
qed

lemma fold_minOpt_Some:
  "fold (\<lambda>x b. minOpt b (f x)) xs (Some b0) = Some (Min (insert b0 (f ` set xs)))"
proof (induction xs arbitrary: b0)
  case Nil
  show ?case by simp
next
  case (Cons x xs)
  have m: "(if f x < b0 then f x else b0) = min (f x) b0"
    by (cases "f x < b0") (auto simp: min_def)
  have "fold (\<lambda>x b. minOpt b (f x)) (x # xs) (Some b0)
      = fold (\<lambda>x b. minOpt b (f x)) xs (Some (min (f x) b0))"
    by (simp only: fold_Cons comp_apply minOpt.simps m)
  also have "\<dots> = Some (Min (insert (min (f x) b0) (f ` set xs)))"
    by (rule Cons.IH)
  also have "Min (insert (min (f x) b0) (f ` set xs)) = Min (insert b0 (insert (f x) (f ` set xs)))"
    by (rule Min_insert_min) simp
  finally show ?case by simp
qed

lemma fold_minOpt_None:
  assumes "xs \<noteq> []"
  shows "fold (\<lambda>x b. minOpt b (f x)) xs None = Some (Min (f ` set xs))"
proof -
  obtain x ys where xs: "xs = x # ys" using assms by (cases xs) auto
  show ?thesis unfolding xs by (simp add: fold_minOpt_Some)
qed

lemma keyPerm_identity: "keyPerm k [1 .. int k]"
  by (simp add: keyPerm_def)

lemma canonicalizeWallet_Min:
  "canonicalizeWallet w k = Inr (Some (Min (relabelled w ` {p. keyPerm k p})))"
proof -
  have v: "\<forall>perm \<in> set (permutations [1 .. int k]). \<forall>t \<in> set perm. 1 \<le> t"
    using keyPerm_props(4) by (simp add: set_permutations_keys)
  have ne: "permutations [1 .. int k] \<noteq> []"
    using keyPerm_identity [of k] set_permutations_keys [of k] by auto
  show ?thesis
    unfolding canonicalizeWallet_def Let_def canonicalizeWallet_loop_fold [OF v]
    by (simp add: fold_minOpt_None [OF ne] set_permutations_keys)
qed

lemma finite_keyPerms: "finite {p. keyPerm k p}"
  unfolding set_permutations_keys [symmetric] by simp

lemma keyPerm_nth:
  assumes "keyPerm k s" "n < k"
  shows "1 \<le> s ! n" "s ! n \<le> int k" "nat (s ! n - 1) < k" "int (nat (s ! n - 1)) + 1 = s ! n"
proof -
  have "s ! n \<in> set s" using assms keyPerm_props(1) by (intro nth_mem) simp
  then have r: "s ! n \<in> {1 .. int k}" using keyPerm_props(2) [OF assms(1)] by simp
  show "1 \<le> s ! n" "s ! n \<le> int k" "nat (s ! n - 1) < k" "int (nat (s ! n - 1)) + 1 = s ! n"
    using r by auto
qed

lemma keyPerm_surj:
  assumes "keyPerm k s" "i < k"
  shows "\<exists>n < k. s ! n = int i + 1"
proof -
  have "int i + 1 \<in> set s" using keyPerm_props(2) [OF assms(1)] assms(2) by simp
  then show ?thesis using keyPerm_props(1) [OF assms(1)] by (auto simp: in_set_conv_nth)
qed

lemma compose_identity:
  assumes "keyPerm k s"
  shows "compose [1 .. int k] s = s"
proof -
  have "[1 .. int k] ! nat (t - 1) = t" if "t \<in> set s" for t
  proof -
    have "t \<in> {1 .. int k}" using that keyPerm_props(2) [OF assms] by simp
    then show ?thesis by (subst nth_upto) auto
  qed
  then show ?thesis unfolding compose_def by (intro map_idI)
qed

lemma map_nth_keys:
  assumes "length p = k"
  shows "map (\<lambda>t. p ! nat (t - 1)) [1 .. int k] = p"
proof (rule nth_equalityI)
  show "length (map (\<lambda>t. p ! nat (t - 1)) [1 .. int k]) = length p" using assms by simp
next
  fix i assume "i < length (map (\<lambda>t. p ! nat (t - 1)) [1 .. int k])"
  then have i: "i < k" by simp
  then have "[1 .. int k] ! i = 1 + int i" by (intro nth_upto) simp
  then show "map (\<lambda>t. p ! nat (t - 1)) [1 .. int k] ! i = p ! i" using i by simp
qed

lemma compose_keyPerm:
  assumes "keyPerm k p" "keyPerm k s"
  shows "keyPerm k (compose p s)"
proof -
  have "mset (compose p s) = image_mset (\<lambda>t. p ! nat (t - 1)) (mset s)"
    by (simp add: compose_def)
  also have "\<dots> = image_mset (\<lambda>t. p ! nat (t - 1)) (mset [1 .. int k])"
    using assms(2) by (simp add: keyPerm_def)
  also have "\<dots> = mset (map (\<lambda>t. p ! nat (t - 1)) [1 .. int k])" by simp
  also have "\<dots> = mset p" using map_nth_keys [OF keyPerm_props(1) [OF assms(1)]] by simp
  also have "\<dots> = mset [1 .. int k]" using assms(1) by (simp add: keyPerm_def)
  finally show ?thesis by (simp add: keyPerm_def)
qed

lemma bit_permuted:
  assumes "keyPerm k p"
  shows "bit (permuted p c) j \<longleftrightarrow> (\<exists>m < k. p ! m = int j + 1 \<and> bit c m)"
  using permuteBits_ok(2) [OF keyPerm_props(4) [OF assms], of c j] keyPerm_props(1) [OF assms]
  by simp

lemma permuted_compose:
  assumes "keyPerm k p" "keyPerm k s"
  shows "permuted p (permuted s c) = permuted (compose p s) c"
proof (rule bit_eqI)
  fix j
  have len: "length s = k" using keyPerm_props(1) [OF assms(2)] .
  have "bit (permuted p (permuted s c)) j \<longleftrightarrow>
        (\<exists>m < k. p ! m = int j + 1 \<and> (\<exists>n < k. s ! n = int m + 1 \<and> bit c n))"
    by (simp add: bit_permuted [OF assms(1)] bit_permuted [OF assms(2)])
  also have "\<dots> \<longleftrightarrow> (\<exists>n < k. p ! nat (s ! n - 1) = int j + 1 \<and> bit c n)"
  proof
    assume "\<exists>m < k. p ! m = int j + 1 \<and> (\<exists>n < k. s ! n = int m + 1 \<and> bit c n)"
    then obtain m n where "m < k" "p ! m = int j + 1" "n < k" "s ! n = int m + 1" "bit c n"
      by blast
    then have "n < k \<and> p ! nat (s ! n - 1) = int j + 1 \<and> bit c n" by simp
    then show "\<exists>n < k. p ! nat (s ! n - 1) = int j + 1 \<and> bit c n" by blast
  next
    assume "\<exists>n < k. p ! nat (s ! n - 1) = int j + 1 \<and> bit c n"
    then obtain n where n: "n < k" "p ! nat (s ! n - 1) = int j + 1" "bit c n" by blast
    let ?m = "nat (s ! n - 1)"
    have "?m < k" "s ! n = int ?m + 1" using keyPerm_nth [OF assms(2) n(1)] by auto
    then show "\<exists>m < k. p ! m = int j + 1 \<and> (\<exists>n < k. s ! n = int m + 1 \<and> bit c n)"
      using n by blast
  qed
  also have "\<dots> \<longleftrightarrow> bit (permuted (compose p s) c) j"
    unfolding bit_permuted [OF compose_keyPerm [OF assms]]
    using len by (auto simp: compose_def)
  finally show "bit (permuted p (permuted s c)) j \<longleftrightarrow> bit (permuted (compose p s) c) j" .
qed

lemma sort_map_sort:
  fixes xs :: "int list"
  shows "sort (map f (sort xs)) = sort (map f xs)"
  by (rule properties_for_sort) simp_all

lemma relabelled_map:
  assumes "keyPerm k p" "keyPerm k s"
  shows "relabelled (map (permuted s) w) p = relabelled w (compose p s)"
  by (simp add: relabelled_def permuted_compose [OF assms] comp_def)

lemma relabelled_relabelled:
  assumes "keyPerm k p" "keyPerm k s"
  shows "relabelled (relabelled w s) p = relabelled w (compose p s)"
proof -
  have "relabelled (relabelled w s) p = sort (map (permuted p) (map (permuted s) w))"
    unfolding relabelled_def by (rule sort_map_sort)
  then show ?thesis using relabelled_map [OF assms, of w] by (simp add: relabelled_def)
qed

lemma sorted_relabelled: "sort (relabelled w p) = relabelled w p"
  unfolding relabelled_def by (rule sort_key_id_if_sorted) simp

lemma compose_inj:
  assumes "keyPerm k s" "keyPerm k p" "keyPerm k q" "compose p s = compose q s"
  shows "p = q"
proof (rule nth_equalityI)
  show "length p = length q" using keyPerm_props(1) assms by simp
next
  fix i assume "i < length p"
  then have i: "i < k" using keyPerm_props(1) [OF assms(2)] by simp
  obtain n where n: "n < k" "s ! n = int i + 1" using keyPerm_surj [OF assms(1) i] by blast
  have "compose p s ! n = compose q s ! n" using assms(4) by simp
  then show "p ! i = q ! i"
    using n keyPerm_props(1) [OF assms(1)] by (simp add: compose_def)
qed

lemma compose_image:
  assumes "keyPerm k s"
  shows "(\<lambda>p. compose p s) ` {p. keyPerm k p} = {p. keyPerm k p}"
proof (rule card_subset_eq)
  show "finite {p. keyPerm k p}" by (rule finite_keyPerms)
  show "(\<lambda>p. compose p s) ` {p. keyPerm k p} \<subseteq> {p. keyPerm k p}"
    using compose_keyPerm [OF _ assms] by auto
  have "inj_on (\<lambda>p. compose p s) {p. keyPerm k p}"
    by (rule inj_onI) (use compose_inj [OF assms] in auto)
  then show "card ((\<lambda>p. compose p s) ` {p. keyPerm k p}) = card {p. keyPerm k p}"
    by (rule card_image)
qed

text \<open>
  Claim C9. Canonicalisation is idempotent: \<open>canonicalizeWallet\<close> returns a canonical
  form, and applied to that form, with the same number of keys, it returns it unchanged.
\<close>

theorem canonicalizeWallet_idempotent:
  "\<exists>canon. canonicalizeWallet w keyCount = Inr (Some canon) \<and>
           canonicalizeWallet canon keyCount = Inr (Some canon)"
proof -
  let ?P = "{p. keyPerm keyCount p}"
  let ?c = "Min (relabelled w ` ?P)"
  have fin: "finite ?P" by (rule finite_keyPerms)
  have ne: "?P \<noteq> {}" using keyPerm_identity [of keyCount] by auto
  have "?c \<in> relabelled w ` ?P" using fin ne by (intro Min_in) auto
  then obtain s where s: "keyPerm keyCount s" "?c = relabelled w s" by auto
  have sub: "relabelled ?c ` ?P \<subseteq> relabelled w ` ?P"
  proof
    fix x assume "x \<in> relabelled ?c ` ?P"
    then obtain p where p: "keyPerm keyCount p" "x = relabelled ?c p" by auto
    have "x = relabelled w (compose p s)"
      unfolding p(2) s(2) by (rule relabelled_relabelled [OF p(1) s(1)])
    then show "x \<in> relabelled w ` ?P" using compose_keyPerm [OF p(1) s(1)] by auto
  qed
  have "relabelled ?c [1 .. int keyCount] = ?c"
    unfolding s(2) relabelled_relabelled [OF keyPerm_identity s(1)] compose_identity [OF s(1)] ..
  then have mem: "?c \<in> relabelled ?c ` ?P"
    using keyPerm_identity [of keyCount] by (metis (mono_tags, lifting) image_eqI mem_Collect_eq)
  have le: "Min (relabelled ?c ` ?P) \<le> ?c" using fin mem by (intro Min_le) auto
  have "Min (relabelled ?c ` ?P) \<in> relabelled ?c ` ?P" using fin ne by (intro Min_in) auto
  then have "Min (relabelled ?c ` ?P) \<in> relabelled w ` ?P" using sub by blast
  then have ge: "?c \<le> Min (relabelled ?c ` ?P)" using fin by (intro Min_le) auto
  have "Min (relabelled ?c ` ?P) = ?c" using le ge by (rule antisym)
  then show ?thesis by (simp add: canonicalizeWallet_Min)
qed

text \<open>
  Claim C10. Canonicalisation is invariant under relabelling: for a permutation \<open>perm\<close> of
  the key indices \<open>1..keyCount\<close>, applying \<open>permuteBits\<close> with \<open>perm\<close> to every
  combination of a wallet succeeds, and the relabelled wallet has the canonical form of the
  original one.
\<close>

theorem canonicalizeWallet_relabelling:
  assumes "distinct perm" "set perm = {1 .. int keyCount}"
  shows "\<exists>relabelledWallet.
           traverse (\<lambda>c. permuteBits c perm) w = Inr relabelledWallet \<and>
           canonicalizeWallet relabelledWallet keyCount = canonicalizeWallet w keyCount"
proof -
  let ?P = "{p. keyPerm keyCount p}"
  have perm: "keyPerm keyCount perm" using assms by (simp add: keyPerm_iff)
  have t: "traverse (\<lambda>c. permuteBits c perm) w = Inr (map (permuted perm) w)"
    by (rule traverse_permuteBits [OF keyPerm_props(4) [OF perm]])
  have "relabelled (map (permuted perm) w) ` ?P = (\<lambda>p. relabelled w (compose p perm)) ` ?P"
    by (rule image_cong) (auto simp: relabelled_map [OF _ perm])
  also have "\<dots> = relabelled w ` ((\<lambda>p. compose p perm) ` ?P)" by (simp add: image_image)
  also have "\<dots> = relabelled w ` ?P" by (simp only: compose_image [OF perm])
  finally have "canonicalizeWallet (map (permuted perm) w) keyCount = canonicalizeWallet w keyCount"
    by (simp add: canonicalizeWallet_Min)
  then show ?thesis using t by simp
qed

theorem canonicalizeWallet_relabelling_witness:
  "distinct [2, 1 :: int] \<and> set [2, 1] = {1 .. int 2} \<and>
   traverse (\<lambda>c. permuteBits c [2, 1]) [1, 3] = Inr [2, 3] \<and>
   canonicalizeWallet [2, 3] 2 = canonicalizeWallet [1, 3] 2"
proof -
  have s: "set [2, 1] = {1 .. int 2}" by auto
  have t: "traverse (\<lambda>c. permuteBits c [2, 1]) [1, 3] = Inr [2, 3]" by code_simp
  show ?thesis
    using canonicalizeWallet_relabelling [of "[2, 1]" 2 "[1, 3]"] s t by simp
qed

section \<open>Relabelling of keys and the success probability, with exact arithmetic\<close>

lemma ownerAdvKeys_inner_maskOf:
  "ownerAdvKeys_inner state ownerState advState i =
     (ownerState + 2 ^ i * maskOf (fst \<circ> bools) state, advState + 2 ^ i * maskOf (snd \<circ> bools) state)"
  by (induction state arbitrary: ownerState advState i) (simp_all add: algebra_simps)

lemma ownerMask_maskOf: "ownerMask state = maskOf (fst \<circ> bools) state"
  by (simp add: ownerMask_def ownerAdvKeys_inner_maskOf)

lemma advMask_maskOf: "advMask state = maskOf (snd \<circ> bools) state"
  by (simp add: advMask_def ownerAdvKeys_inner_maskOf)

lemma bit_maskOf:
  assumes "\<forall>x. b x = 0 \<or> b x = 1"
  shows "bit (maskOf b state) j \<longleftrightarrow> j < length state \<and> b (state ! j) = 1"
proof (induction state arbitrary: j)
  case Nil
  show ?case by simp
next
  case (Cons x xs)
  have bx: "b x = 0 \<or> b x = 1" using assms by blast
  show ?case
  proof (cases j)
    case 0
    then show ?thesis using bx by (auto simp: bit_0)
  next
    case (Suc n)
    have "(b x + 2 * maskOf b xs) div 2 = maskOf b xs" using bx by auto
    then show ?thesis using Suc Cons.IH [of n] by (simp add: bit_Suc)
  qed
qed

lemma bools_01: "\<forall>x. (fst \<circ> bools) x = 0 \<or> (fst \<circ> bools) x = 1"
  "\<forall>x. (snd \<circ> bools) x = 0 \<or> (snd \<circ> bools) x = 1"
proof -
  show "\<forall>x. (fst \<circ> bools) x = 0 \<or> (fst \<circ> bools) x = 1"
  proof
    fix x show "(fst \<circ> bools) x = 0 \<or> (fst \<circ> bools) x = 1" by (cases x) simp_all
  qed
  show "\<forall>x. (snd \<circ> bools) x = 0 \<or> (snd \<circ> bools) x = 1"
  proof
    fix x show "(snd \<circ> bools) x = 0 \<or> (snd \<circ> bools) x = 1" by (cases x) simp_all
  qed
qed

lemma set_statesOf: "set (statesOf (Suc n)) = {s. length s = Suc n}"
proof (induction n)
  case 0
  show ?case
  proof (intro set_eqI iffI)
    fix s assume "s \<in> set (statesOf (Suc 0))"
    then show "s \<in> {s. length s = Suc 0}" by (auto simp: sorted_KeyStates_def)
  next
    fix s :: "KeyState list" assume "s \<in> {s. length s = Suc 0}"
    then obtain x where s: "s = [x]" by (cases s) auto
    have "x \<in> set sorted_KeyStates" by (cases x) (simp_all add: sorted_KeyStates_def)
    then show "s \<in> set (statesOf (Suc 0))" using s by auto
  qed
next
  case (Suc n)
  show ?case
  proof (intro set_eqI iffI)
    fix s assume "s \<in> set (statesOf (Suc (Suc n)))"
    then show "s \<in> {s. length s = Suc (Suc n)}" using Suc.IH by auto
  next
    fix s :: "KeyState list" assume "s \<in> {s. length s = Suc (Suc n)}"
    then obtain x xs where s: "s = x # xs" "length xs = Suc n" by (cases s) auto
    then have "xs \<in> set (statesOf (Suc n))" using Suc.IH by simp
    moreover have "x \<in> set KeyStates" by (simp add: set_KeyStates)
    ultimately show "s \<in> set (statesOf (Suc (Suc n)))" using s by auto
  qed
qed

lemma distinct_statesOf: "distinct (statesOf (Suc n))"
proof (induction n)
  case 0
  show ?case by (simp add: sorted_KeyStates_def distinct_map inj_on_def)
next
  case (Suc n)
  have "distinct (concat (map (\<lambda>keyState. map ((#) keyState) (statesOf (Suc n))) KeyStates))"
  proof (rule distinct_concat_map)
    show "distinct KeyStates" by (simp add: KeyStates_def)
  next
    fix x show "distinct (map ((#) x) (statesOf (Suc n)))"
      using Suc.IH by (simp add: distinct_map)
  next
    fix x y :: KeyState assume "x \<noteq> y"
    then show "set (map ((#) x) (statesOf (Suc n))) \<inter> set (map ((#) y) (statesOf (Suc n))) = {}"
      by auto
  qed
  then show ?case by simp
qed

lemma stateProb_prod: "stateProb p s = prod_list (map (\<lambda>x. the (p x)) s)"
  by (induction p s rule: stateProb.induct) simp_all

lemma stateProb_mset:
  assumes "mset s = mset s'"
  shows "stateProb p s = stateProb p s'"
proof -
  have "prod_list (map (\<lambda>x. the (p x)) s) = prod_mset (image_mset (\<lambda>x. the (p x)) (mset s))"
    by (simp add: prod_mset_prod_list [symmetric])
  also have "\<dots> = prod_list (map (\<lambda>x. the (p x)) s')"
    using assms by (simp add: prod_mset_prod_list [symmetric])
  finally show ?thesis by (simp add: stateProb_prod)
qed

lemma length_compose: "length (compose s perm) = length perm"
  by (simp add: compose_def)

lemma mset_compose:
  assumes "keyPerm k perm" "length s = k"
  shows "mset (compose s perm) = mset s"
proof -
  have "mset (compose s perm) = image_mset (\<lambda>t. s ! nat (t - 1)) (mset perm)"
    by (simp add: compose_def)
  also have "\<dots> = image_mset (\<lambda>t. s ! nat (t - 1)) (mset [1 .. int k])"
    using assms(1) by (simp add: keyPerm_def)
  also have "\<dots> = mset (map (\<lambda>t. s ! nat (t - 1)) [1 .. int k])" by simp
  also have "\<dots> = mset s" using map_nth_keys [OF assms(2)] by simp
  finally show ?thesis .
qed

lemma compose_states_inj:
  assumes "keyPerm k perm" "length s = k" "length s' = k" "compose s perm = compose s' perm"
  shows "s = s'"
proof (rule nth_equalityI)
  show "length s = length s'" using assms by simp
next
  fix i assume "i < length s"
  then have i: "i < k" using assms(2) by simp
  obtain n where n: "n < k" "perm ! n = int i + 1" using keyPerm_surj [OF assms(1) i] by blast
  have "compose s perm ! n = compose s' perm ! n" using assms(4) by simp
  then show "s ! i = s' ! i"
    using n keyPerm_props(1) [OF assms(1)] by (simp add: compose_def)
qed

lemma compose_states_image:
  assumes "keyPerm k perm"
  shows "(\<lambda>s. compose s perm) ` {s :: KeyState list. length s = k} = {s. length s = k}"
proof (rule card_subset_eq)
  have "finite (UNIV :: KeyState set)" using finite_set [of KeyStates] by (simp only: set_KeyStates)
  then have "finite {s :: KeyState list. set s \<subseteq> UNIV \<and> length s = k}"
    by (rule finite_lists_length_eq)
  then show "finite {s :: KeyState list. length s = k}" by simp
  show "(\<lambda>s. compose s perm) ` {s :: KeyState list. length s = k} \<subseteq> {s. length s = k}"
    using keyPerm_props(1) [OF assms] by (auto simp: length_compose)
  have "inj_on (\<lambda>s. compose s perm) {s :: KeyState list. length s = k}"
    by (rule inj_onI) (use compose_states_inj [OF assms] in auto)
  then show "card ((\<lambda>s. compose s perm) ` {s :: KeyState list. length s = k})
           = card {s :: KeyState list. length s = k}"
    by (rule card_image)
qed

lemma maskOf_compose:
  assumes "keyPerm k perm" "length s = k" "\<forall>x. b x = 0 \<or> b x = 1"
  shows "permuted perm (maskOf b (compose s perm)) = maskOf b s"
proof (rule bit_eqI)
  fix j
  have len: "length perm = k" using keyPerm_props(1) [OF assms(1)] .
  have "bit (permuted perm (maskOf b (compose s perm))) j \<longleftrightarrow>
        (\<exists>m < k. perm ! m = int j + 1 \<and> b (compose s perm ! m) = 1)"
    unfolding bit_permuted [OF assms(1)] bit_maskOf [OF assms(3)] length_compose len by blast
  also have "\<dots> \<longleftrightarrow> (\<exists>m < k. perm ! m = int j + 1 \<and> b (s ! j) = 1)"
    using len by (auto simp: compose_def)
  also have "\<dots> \<longleftrightarrow> j < k \<and> b (s ! j) = 1"
  proof
    assume "\<exists>m < k. perm ! m = int j + 1 \<and> b (s ! j) = 1"
    then obtain m where m: "m < k" "perm ! m = int j + 1" "b (s ! j) = 1" by blast
    have "perm ! m \<le> int k" using keyPerm_nth(2) [OF assms(1) m(1)] .
    then show "j < k \<and> b (s ! j) = 1" using m by simp
  next
    assume "j < k \<and> b (s ! j) = 1"
    then show "\<exists>m < k. perm ! m = int j + 1 \<and> b (s ! j) = 1"
      using keyPerm_surj [OF assms(1), of j] by blast
  qed
  also have "\<dots> \<longleftrightarrow> bit (maskOf b s) j"
    unfolding bit_maskOf [OF assms(3)] assms(2) ..
  finally show "bit (permuted perm (maskOf b (compose s perm))) j \<longleftrightarrow> bit (maskOf b s) j" .
qed

lemma subset_mask_bits:
  fixes x y :: int
  shows "x AND y = x \<longleftrightarrow> (\<forall>j. bit x j \<longrightarrow> bit y j)"
  by (auto simp: bit_eq_iff bit_and_iff)

lemma bit_in_range:
  fixes c :: int
  assumes "0 \<le> c" "c < 2 ^ k" "bit c i"
  shows "i < k"
proof -
  have "take_bit k c = c" using assms(1,2) by (simp add: take_bit_int_eq_self)
  then have "bit (take_bit k c) i" using assms(3) by simp
  then show ?thesis by (simp add: bit_take_bit_iff)
qed

lemma permuted_subset:
  assumes "keyPerm k perm" "0 \<le> c" "c < 2 ^ k"
  shows "permuted perm c AND permuted perm m = permuted perm c \<longleftrightarrow> c AND m = c"
proof
  assume a: "permuted perm c AND permuted perm m = permuted perm c"
  show "c AND m = c"
    unfolding subset_mask_bits
  proof (intro allI impI)
    fix i assume ci: "bit c i"
    have i: "i < k" using bit_in_range [OF assms(2,3) ci] .
    let ?j = "nat (perm ! i - 1)"
    have pj: "perm ! i = int ?j + 1" using keyPerm_nth(4) [OF assms(1) i] by simp
    have "bit (permuted perm c) ?j" unfolding bit_permuted [OF assms(1)] using i pj ci by blast
    then have "bit (permuted perm m) ?j" using a unfolding subset_mask_bits by blast
    then obtain n where n: "n < k" "perm ! n = int ?j + 1" "bit m n"
      unfolding bit_permuted [OF assms(1)] by blast
    have "perm ! n = perm ! i" using n pj by simp
    then have "n = i"
      using keyPerm_props(1,3) [OF assms(1)] n(1) i by (simp add: nth_eq_iff_index_eq)
    then show "bit m i" using n by simp
  qed
next
  assume a: "c AND m = c"
  show "permuted perm c AND permuted perm m = permuted perm c"
    unfolding subset_mask_bits bit_permuted [OF assms(1)]
    using a unfolding subset_mask_bits by blast
qed

lemma isCovered_permuted:
  assumes "keyPerm k perm" "\<forall>c \<in> set w. 0 \<le> c \<and> c < 2 ^ k"
  shows "isCovered (permuted perm m) (map (permuted perm) w) \<longleftrightarrow> isCovered m w"
  using assms(2) permuted_subset [OF assms(1)] by (auto simp: isCovered_iff)

lemma stateScore_permuted:
  assumes "keyPerm k perm" "\<forall>c \<in> set w. 0 \<le> c \<and> c < 2 ^ k" "length s = k"
  shows "stateScore p (map (permuted perm) w) s = stateScore p w (compose s perm)"
proof -
  have o: "ownerMask s = permuted perm (ownerMask (compose s perm))"
    unfolding ownerMask_maskOf by (rule maskOf_compose [OF assms(1,3) bools_01(1), symmetric])
  have a: "advMask s = permuted perm (advMask (compose s perm))"
    unfolding advMask_maskOf by (rule maskOf_compose [OF assms(1,3) bools_01(2), symmetric])
  have co: "isCovered (ownerMask s) (map (permuted perm) w)
        \<longleftrightarrow> isCovered (ownerMask (compose s perm)) w"
    by (subst o) (rule isCovered_permuted [OF assms(1,2)])
  have ca: "isCovered (advMask s) (map (permuted perm) w)
        \<longleftrightarrow> isCovered (advMask (compose s perm)) w"
    by (subst a) (rule isCovered_permuted [OF assms(1,2)])
  have pr: "stateProb p s = stateProb p (compose s perm)"
    by (rule stateProb_mset) (simp add: mset_compose [OF assms(1,3)])
  show ?thesis unfolding stateScore_def co ca pr ..
qed

lemma walletScore_permuted:
  assumes "keyPerm (Suc n) perm" "\<forall>c \<in> set w. 0 \<le> c \<and> c < 2 ^ Suc n"
  shows "walletScore (Suc n) p (map (permuted perm) w) = walletScore (Suc n) p w"
proof -
  let ?S = "{s :: KeyState list. length s = Suc n}"
  let ?g = "\<lambda>s :: KeyState list. compose s perm"
  have inj: "inj_on ?g ?S"
    by (rule inj_onI) (use compose_states_inj [OF assms(1)] in auto)
  have "walletScore (Suc n) p (map (permuted perm) w)
      = sum (stateScore p (map (permuted perm) w)) ?S"
    unfolding walletScore_def
    by (simp only: sum_list_distinct_conv_sum_set [OF distinct_statesOf] set_statesOf)
  also have "\<dots> = sum (\<lambda>s. stateScore p w (?g s)) ?S"
    by (rule sum.cong) (simp_all add: stateScore_permuted [OF assms])
  also have "\<dots> = sum (stateScore p w) (?g ` ?S)"
    by (simp only: sum.reindex [OF inj] comp_def)
  also have "\<dots> = sum (stateScore p w) ?S"
    by (simp only: compose_states_image [OF assms(1)])
  also have "\<dots> = walletScore (Suc n) p w"
    unfolding walletScore_def
    by (simp only: sum_list_distinct_conv_sum_set [OF distinct_statesOf] set_statesOf)
  finally show ?thesis .
qed

text \<open>
  Relabelling with exact sums and products. For \<open>keyCount \<ge> 1\<close>, a complete
  dictionary, a permutation \<open>perm\<close> of the key indices \<open>1..keyCount\<close> and a wallet
  whose combinations use only the \<open>keyCount\<close> key bits, relabelling every combination
  with \<open>permuteBits\<close> succeeds and the success probability over the state space, as a real
  number, is the same for the wallet and for the relabelled wallet. The code computes with
  floats and its two sums add differently ordered products: whether the float results are
  equal (claim C3) depends on rounding, which is not modelled here.
\<close>

lemma successProbability_relabelling_exact:
  assumes "1 \<le> keyCount" "set KeyStates \<subseteq> dom p"
    and "distinct perm" "set perm = {1 .. keyCount}"
    and "\<forall>c \<in> set w. 0 \<le> c \<and> c < 2 ^ nat keyCount"
    and "enumerateStates keyCount p = Inr (states, probabilities)"
    and "ownerAdvKeysFromStates states = (ownerStates, advStates)"
  shows "\<exists>relabelledWallet q.
           traverse (\<lambda>c. permuteBits c perm) w = Inr relabelledWallet \<and>
           computeSuccessProbability w ownerStates advStates probabilities = Inr q \<and>
           computeSuccessProbability relabelledWallet ownerStates advStates probabilities = Inr q"
proof -
  obtain n where n: "nat keyCount = Suc n" using assms(1) by (cases "nat keyCount") auto
  have k: "int (Suc n) = keyCount" using n assms(1) by linarith
  have kp: "keyPerm (Suc n) perm" using assms(3,4) k by (simp add: keyPerm_iff)
  have c: "\<forall>s. p s \<noteq> None" using assms(2) set_KeyStates by auto
  have st: "states = statesOf (Suc n)" "probabilities = map (stateProb p) states"
    using assms(6) enumerateStates_complete [OF assms(1) c] n by auto
  have oa: "ownerStates = map ownerMask states" "advStates = map advMask states"
    using assms(7) by (auto simp: ownerAdvKeysFromStates_map)
  have q: "computeSuccessProbability v ownerStates advStates probabilities
         = Inr (walletScore (Suc n) p v)" for v
    unfolding st(2) oa walletScore_def st(1) by (rule computeSuccessProbability_states)
  have t: "traverse (\<lambda>c. permuteBits c perm) w = Inr (map (permuted perm) w)"
    by (rule traverse_permuteBits [OF keyPerm_props(4) [OF kp]])
  have r: "\<forall>c \<in> set w. 0 \<le> c \<and> c < 2 ^ Suc n" using assms(5) n by simp
  show ?thesis using t q walletScore_permuted [OF kp r, of p] by simp
qed

end
